theory Spec2Isabelle
  imports Main "HOL-Library.Word" "HOL-Library.Signed_Division"
begin

section \<open>Machine types and panics\<close>

text \<open>
  Go's \<^verbatim>\<open>int32\<close>, \<^verbatim>\<open>uint32\<close> and \<^verbatim>\<open>uint64\<close> are words of that width; an
  \<^verbatim>\<open>int32\<close> is read through \<open>sint\<close>. A \<^verbatim>\<open>string\<close> is a sequence of bytes, and
  \<^verbatim>\<open>[]byte(key)\<close> is that same sequence. Go's \<^verbatim>\<open>int\<close> (64 bits on the platforms the
  program runs on) is an \<open>int\<close>: the values the program computes with it stay below
  \<open>2 ^ 18\<close>, far from the wrap-around.
\<close>

type_synonym int32 = "32 word"
type_synonym uint32 = "32 word"
type_synonym uint64 = "64 word"

text \<open>The run-time panics of the Go operations that \<^verbatim>\<open>bloom.go\<close> uses.\<close>

datatype panic =
    MakesliceLenOutOfRange  \<comment> \<open>\<^verbatim>\<open>make([]bool, n)\<close> with \<open>n < 0\<close>\<close>
  | IntegerDivideByZero     \<comment> \<open>\<^verbatim>\<open>x % 0\<close>\<close>
  | IndexOutOfRange         \<comment> \<open>\<^verbatim>\<open>xs[i]\<close> with \<open>i\<close> outside \<open>[0, len xs)\<close>\<close>

section \<open>The murmur3 hasher (external library)\<close>

text \<open>
  \<^verbatim>\<open>github.com/spaolacci/murmur3\<close> is a dependency, not part of the repository. Its
  \<^verbatim>\<open>Hash128\<close> follows Go's \<^verbatim>\<open>hash.Hash\<close> contract: \<^verbatim>\<open>Write\<close> adds bytes to the running
  hash, \<^verbatim>\<open>Sum128\<close> returns the two 64-bit halves of the digest of everything written
  since the last \<^verbatim>\<open>Reset\<close> and leaves the hasher as it is, and \<^verbatim>\<open>Reset\<close> returns it to
  its seeded initial state. The hasher is therefore its seed together with the bytes
  written so far; the digest function itself (seed and bytes to the two halves) is a
  parameter \<open>H\<close> of everything below.
\<close>

type_synonym murmur = "uint32 \<Rightarrow> string \<Rightarrow> uint64 \<times> uint64"

record Hash128 =
  seed :: uint32
  written :: string

definition New128WithSeed :: "uint32 \<Rightarrow> Hash128" where
  "New128WithSeed s = \<lparr>seed = s, written = []\<rparr>"

definition Write :: "Hash128 \<Rightarrow> string \<Rightarrow> Hash128" where
  "Write h bs = h\<lparr>written := written h @ bs\<rparr>"

definition Sum128 :: "murmur \<Rightarrow> Hash128 \<Rightarrow> uint64 \<times> uint64" where
  "Sum128 H h = H (seed h) (written h)"

definition Reset :: "Hash128 \<Rightarrow> Hash128" where
  "Reset h = h\<lparr>written := []\<rparr>"

section \<open>The filter\<close>

record BloomFilter =
  Store :: "bool list"
  Size :: int32
  mHashers :: "Hash128 list"

text \<open>
  \<^verbatim>\<open>NewBloomFilter\<close>: \<^verbatim>\<open>make([]bool, size)\<close> panics on a negative length and otherwise
  gives \<open>size\<close> times \<open>false\<close>; the eight hashers are created afresh at every call.
\<close>

definition NewBloomFilter :: "int32 \<Rightarrow> panic + BloomFilter" where
  "NewBloomFilter sz =
     (if sint sz < 0 then Inl MakesliceLenOutOfRange
      else Inr \<lparr>Store = replicate (nat (sint sz)) False,
                Size = sz,
                mHashers =
                  [New128WithSeed 11,
                   New128WithSeed 31,
                   New128WithSeed 131,
                   New128WithSeed 989,
                   New128WithSeed 1919,
                   New128WithSeed 2007,
                   New128WithSeed 31313,
                   New128WithSeed 9281917]\<rparr>)"

text \<open>
  \<^verbatim>\<open>Info\<close> builds a \<^verbatim>\<open>map[string]any\<close> with two integer values and touches nothing.
\<close>

definition Info :: "BloomFilter \<Rightarrow> (string \<rightharpoonup> int)" where
  "Info bf = [''size'' \<mapsto> sint (Size bf),
              ''totalHashFuncs'' \<mapsto> int (length (mHashers bf))]"

text \<open>
  \<^verbatim>\<open>ComputeMurmurHash\<close>: the three statements index \<^verbatim>\<open>bf.mHashers[hashFn]\<close>, which
  panics outside the slice; the hasher is written to, read, and reset in place.
\<close>

definition ComputeMurmurHash ::
  "murmur \<Rightarrow> BloomFilter \<Rightarrow> string \<Rightarrow> int \<Rightarrow> panic + (uint64 \<times> BloomFilter)" where
  "ComputeMurmurHash H bf key hashFn =
     (if hashFn < 0 \<or> int (length (mHashers bf)) \<le> hashFn then Inl IndexOutOfRange
      else
        let i = nat hashFn;
            bf1 = bf\<lparr>mHashers := (mHashers bf)[i := Write (mHashers bf ! i) key]\<rparr>;
            (val, _) = Sum128 H (mHashers bf1 ! i);
            bf2 = bf1\<lparr>mHashers := (mHashers bf1)[i := Reset (mHashers bf1 ! i)]\<rparr>
        in Inr (val, bf2))"

text \<open>
  \<^verbatim>\<open>Add\<close>: the loop over \<open>i\<close>, from the value given up to \<^verbatim>\<open>len(bf.mHashers)\<close>. The
  remainder \<^verbatim>\<open>% uint64(bf.Size)\<close> panics on a zero divisor (the conversion of the
  \<^verbatim>\<open>int32\<close> sign-extends), and \<^verbatim>\<open>bf.Store[index]\<close> panics outside the slice.
\<close>

function Add_loop :: "murmur \<Rightarrow> BloomFilter \<Rightarrow> string \<Rightarrow> int \<Rightarrow> panic + BloomFilter" where
  "Add_loop H bf key i =
     (if i < int (length (mHashers bf)) then
        (case ComputeMurmurHash H bf key i of
           Inl e \<Rightarrow> Inl e
         | Inr (h, bf1) \<Rightarrow>
             if (scast (Size bf1) :: uint64) = 0 then Inl IntegerDivideByZero
             else
               let index = h mod scast (Size bf1) in
               if unat index < length (Store bf1)
               then Add_loop H (bf1\<lparr>Store := (Store bf1)[unat index := True]\<rparr>) key (i + 1)
               else Inl IndexOutOfRange)
      else Inr bf)"
  by pat_completeness auto
termination
  by (relation "measure (\<lambda>(H, bf, key, i). nat (int (length (mHashers bf)) - i))")
     (auto simp: ComputeMurmurHash_def Let_def split: if_splits prod.splits)

definition Add :: "murmur \<Rightarrow> BloomFilter \<Rightarrow> string \<Rightarrow> panic + BloomFilter" where
  "Add H bf key = Add_loop H bf key 0"

text \<open>
  \<^verbatim>\<open>Exists\<close>: the same loop, returning at the first index whose bit is unset.
\<close>

function Exists_loop ::
  "murmur \<Rightarrow> BloomFilter \<Rightarrow> string \<Rightarrow> int \<Rightarrow> panic + ((uint64 \<times> bool) \<times> BloomFilter)" where
  "Exists_loop H bf key i =
     (if i < int (length (mHashers bf)) then
        (case ComputeMurmurHash H bf key i of
           Inl e \<Rightarrow> Inl e
         | Inr (h, bf1) \<Rightarrow>
             if (scast (Size bf1) :: uint64) = 0 then Inl IntegerDivideByZero
             else
               let index = h mod scast (Size bf1) in
               if unat index < length (Store bf1)
               then (if \<not> Store bf1 ! unat index then Inr ((index, False), bf1)
                     else Exists_loop H bf1 key (i + 1))
               else Inl IndexOutOfRange)
      else Inr ((0, True), bf))"
  by pat_completeness auto
termination
  by (relation "measure (\<lambda>(H, bf, key, i). nat (int (length (mHashers bf)) - i))")
     (auto simp: ComputeMurmurHash_def Let_def split: if_splits prod.splits)

definition Exists :: "murmur \<Rightarrow> BloomFilter \<Rightarrow> string \<Rightarrow> panic + ((uint64 \<times> bool) \<times> BloomFilter)" where
  "Exists H bf key = Exists_loop H bf key 0"

section \<open>Sequences of calls on one filter\<close>

text \<open>
  A client holds one filter and calls its exported methods one after another. A panic
  ends the program, so a sequence of calls either panics or leaves a filter behind.
\<close>

datatype call =
    CallAdd string
  | CallExists string
  | CallInfo
  | CallComputeMurmurHash string int

fun step :: "murmur \<Rightarrow> BloomFilter \<Rightarrow> call \<Rightarrow> panic + BloomFilter" where
  "step H bf (CallAdd key) = Add H bf key"
| "step H bf (CallExists key) =
     (case Exists H bf key of Inl e \<Rightarrow> Inl e | Inr (r, bf') \<Rightarrow> Inr bf')"
| "step H bf CallInfo = (let m = Info bf in Inr bf)"
| "step H bf (CallComputeMurmurHash key hashFn) =
     (case ComputeMurmurHash H bf key hashFn of Inl e \<Rightarrow> Inl e | Inr (v, bf') \<Rightarrow> Inr bf')"

fun run :: "murmur \<Rightarrow> BloomFilter \<Rightarrow> call list \<Rightarrow> panic + BloomFilter" where
  "run H bf [] = Inr bf"
| "run H bf (c # cs) = (case step H bf c of Inl e \<Rightarrow> Inl e | Inr bf' \<Rightarrow> run H bf' cs)"

text \<open>
  \<^verbatim>\<open>Add\<close>, \<^verbatim>\<open>Exists\<close> and \<^verbatim>\<open>Info\<close> take no index; a direct call of
  \<^verbatim>\<open>ComputeMurmurHash\<close> names one of the eight hashers when its index is in range.
\<close>

fun in_range :: "call \<Rightarrow> bool" where
  "in_range (CallComputeMurmurHash key hashFn) = (0 \<le> hashFn \<and> hashFn < 8)"
| "in_range c = True"

fun is_Add :: "call \<Rightarrow> bool" where
  "is_Add (CallAdd key) = True"
| "is_Add c = False"

section \<open>What holds of a filter that \<^verbatim>\<open>NewBloomFilter\<close> built\<close>

definition seeds :: "uint32 list" where
  "seeds = [11, 31, 131, 989, 1919, 2007, 31313, 9281917]"

text \<open>All eight hashers are in their seeded initial state, in bank order.\<close>

definition bank_fresh :: "BloomFilter \<Rightarrow> bool" where
  "bank_fresh bf \<longleftrightarrow> mHashers bf = map New128WithSeed seeds"

text \<open>The filter has a positive size and one bit per unit of size.\<close>

definition usable :: "BloomFilter \<Rightarrow> bool" where
  "usable bf \<longleftrightarrow>
     1 \<le> sint (Size bf) \<and> length (Store bf) = nat (sint (Size bf)) \<and> bank_fresh bf"

text \<open>The index that hasher \<open>i\<close> of the bank assigns to a key in a filter of size \<open>sz\<close>.\<close>

definition bit_index :: "murmur \<Rightarrow> int32 \<Rightarrow> string \<Rightarrow> nat \<Rightarrow> uint64" where
  "bit_index H sz key i = fst (H (seeds ! i) key) mod scast sz"

section \<open>Full evaluation of the membership test\<close>

text \<open>
  The membership test as the specification words it when it drops the short-circuit:
  compute all \<open>K = 8\<close> indices \<^verbatim>\<open>digest(key, i) mod size\<close>, then take the conjunction of
  the corresponding bits.
\<close>

definition K :: nat where
  "K = 8"

fun all_indices ::
  "murmur \<Rightarrow> BloomFilter \<Rightarrow> string \<Rightarrow> int list \<Rightarrow> panic + (uint64 list \<times> BloomFilter)" where
  "all_indices H bf key [] = Inr ([], bf)"
| "all_indices H bf key (i # is) =
     (case ComputeMurmurHash H bf key i of
        Inl e \<Rightarrow> Inl e
      | Inr (h, bf1) \<Rightarrow>
          if (scast (Size bf1) :: uint64) = 0 then Inl IntegerDivideByZero
          else (case all_indices H bf1 key is of
                  Inl e \<Rightarrow> Inl e
                | Inr (xs, bf2) \<Rightarrow> Inr ((h mod scast (Size bf1)) # xs, bf2)))"

definition Exists_full_spec :: "murmur \<Rightarrow> BloomFilter \<Rightarrow> string \<Rightarrow> panic + (bool \<times> BloomFilter)" where
  "Exists_full_spec H bf key =
     (case all_indices H bf key (map int [0..<K]) of
        Inl e \<Rightarrow> Inl e
      | Inr (xs, bf') \<Rightarrow>
          if list_all (\<lambda>x. unat x < length (Store bf')) xs
          then Inr (list_all (\<lambda>x. Store bf' ! unat x) xs, bf')
          else Inl IndexOutOfRange)"

section \<open>The experiment driver\<close>

text \<open>
  The loop of \<^verbatim>\<open>main\<close>: \<^verbatim>\<open>for bfsize := 1000; bfsize <= BloomFilterSize; bfsize += 10000\<close>.
  Each round starts one \<^verbatim>\<open>PerformTests(bfsize, ...)\<close>; the list holds the sizes passed,
  in the order of the loop.
\<close>

function sweep_loop :: "int \<Rightarrow> int \<Rightarrow> int list" where
  "sweep_loop bfsize BloomFilterSize =
     (if bfsize \<le> BloomFilterSize
      then bfsize # sweep_loop (bfsize + 10000) BloomFilterSize
      else [])"
  by pat_completeness auto
termination
  by (relation "measure (\<lambda>(bfsize, BloomFilterSize). nat (BloomFilterSize + 1 - bfsize))") auto

definition main_sweep :: "int list" where
  "main_sweep = (let BloomFilterSize = 100000 in sweep_loop 1000 BloomFilterSize)"

text \<open>
  The first statement of \<^verbatim>\<open>PerformTests\<close>: \<^verbatim>\<open>bloom := NewBloomFilter(int32(bloomSize))\<close>;
  the conversion keeps the low 32 bits.
\<close>

definition PerformTests_bloom :: "int \<Rightarrow> panic + BloomFilter" where
  "PerformTests_bloom bloomSize = NewBloomFilter (word_of_int bloomSize)"

text \<open>
  \<^verbatim>\<open>generateDataset\<close>. \<^verbatim>\<open>uuid.New()\<close> draws a random identifier; \<open>U c\<close> stands for
  the string form of the identifier that the \<open>c\<close>-th draw of the run returns, and the
  number of draws made so far is threaded through the two loops.
  \<^verbatim>\<open>make([]string, 1)\<close> is a slice holding one empty string; \<^verbatim>\<open>n/2\<close> truncates
  towards zero.
\<close>

type_synonym uuid_source = "nat \<Rightarrow> string"

function train_loop ::
  "uuid_source \<Rightarrow> int \<Rightarrow> int \<Rightarrow> nat \<times> string list \<times> (string \<rightharpoonup> bool) \<Rightarrow>
     nat \<times> string list \<times> (string \<rightharpoonup> bool)" where
  "train_loop U n i (c, dataset, trainDataset) =
     (if i < n sdiv 2
      then let id = U c
           in train_loop U n (i + 1) (c + 1, dataset @ [id], trainDataset(id \<mapsto> True))
      else (c, dataset, trainDataset))"
  by pat_completeness auto
termination
  by (relation "measure (\<lambda>(U, n, i, st). nat (n sdiv 2 - i))") auto

function test_loop ::
  "uuid_source \<Rightarrow> int \<Rightarrow> int \<Rightarrow> nat \<times> string list \<times> (string \<rightharpoonup> bool) \<Rightarrow>
     nat \<times> string list \<times> (string \<rightharpoonup> bool)" where
  "test_loop U n i (c, dataset, testDataset) =
     (if i < n
      then let id = U c
           in test_loop U n (i + 1) (c + 1, dataset @ [id], testDataset(id \<mapsto> True))
      else (c, dataset, testDataset))"
  by pat_completeness auto
termination
  by (relation "measure (\<lambda>(U, n, i, st). nat (n - i))") auto

definition generateDataset ::
  "uuid_source \<Rightarrow> int \<Rightarrow> string list \<times> (string \<rightharpoonup> bool) \<times> (string \<rightharpoonup> bool)" where
  "generateDataset U n =
     (let dataset = replicate 1 [];
          trainDataset = Map.empty;
          testDataset = Map.empty;
          (c1, dataset1, trainDataset1) = train_loop U n 0 (0, dataset, trainDataset);
          (c2, dataset2, testDataset2) = test_loop U n (n sdiv 2 + 1) (c1, dataset1, testDataset)
      in (dataset2, trainDataset1, testDataset2))"

section \<open>Concrete stand-ins for the external parts\<close>

text \<open>
  A small digest function and a small identifier source, used only where a statement
  is evaluated at a concrete input.
\<close>

definition demo_hash :: murmur where
  "demo_hash s bs = (ucast s + of_nat (length bs), ucast s)"

definition demo_uuid :: uuid_source where
  "demo_uuid c = replicate (Suc c) (CHR ''u'')"

text \<open>
  The filter of size 16 as \<^verbatim>\<open>NewBloomFilter\<close> returns it, and the same filter after
  \<^verbatim>\<open>Add("ab")\<close> under \<open>demo_hash\<close>.
\<close>

definition demo_filter :: BloomFilter where
  "demo_filter =
     \<lparr>Store = replicate 16 False, Size = 16, mHashers = map New128WithSeed seeds\<rparr>"

definition demo_filter_ab :: BloomFilter where
  "demo_filter_ab =
     \<lparr>Store = [False, True, False, True, False, True, False, False,
               False, True, False, False, False, True, False, True],
      Size = 16, mHashers = map New128WithSeed seeds\<rparr>"

definition demo_calls :: "call list" where
  "demo_calls = [CallAdd ''ab'', CallExists ''c'', CallInfo, CallComputeMurmurHash ''d'' 7]"

section \<open>The hashers of a filter\<close>

declare Add_loop.simps [simp del]
declare Exists_loop.simps [simp del]
declare sweep_loop.simps [simp del]
declare train_loop.simps [simp del]
declare test_loop.simps [simp del]

lemma bank_fresh_length: "bank_fresh bf \<Longrightarrow> length (mHashers bf) = 8"
  by (simp add: bank_fresh_def seeds_def)

lemma Reset_Write_New: "Reset (Write (New128WithSeed s) key) = New128WithSeed s"
  by (simp add: Reset_def Write_def New128WithSeed_def)

lemma Sum128_Write_New: "Sum128 H (Write (New128WithSeed s) key) = H s key"
  by (simp add: Sum128_def Write_def New128WithSeed_def)

text \<open>
  On a bank in its initial state a digest is the parameter applied to the seed and the
  key, and the call leaves the filter exactly as it found it.
\<close>

lemma ComputeMurmurHash_fresh:
  assumes "bank_fresh bf" "0 \<le> i" "i < 8"
  shows "ComputeMurmurHash H bf key i = Inr (fst (H (seeds ! nat i) key), bf)"
proof -
  have len: "length seeds = 8" by (simp add: seeds_def)
  have n: "nat i < length seeds" using assms len by simp
  have hs: "mHashers bf = map New128WithSeed seeds"
    using assms(1) by (simp add: bank_fresh_def)
  have nth: "mHashers bf ! nat i = New128WithSeed (seeds ! nat i)"
    using n hs by simp
  have upd: "(mHashers bf)[nat i := New128WithSeed (seeds ! nat i)] = mHashers bf"
    using nth by (metis list_update_id)
  show ?thesis
    using assms n len hs nth upd
    by (simp add: ComputeMurmurHash_def Let_def Reset_Write_New Sum128_Write_New
        split: prod.splits)
qed

lemma ComputeMurmurHash_out_of_range:
  assumes "bank_fresh bf" "i < 0 \<or> 8 \<le> i"
  shows "ComputeMurmurHash H bf key i = Inl IndexOutOfRange"
  using assms bank_fresh_length [of bf] by (auto simp: ComputeMurmurHash_def)

text \<open>A call changes neither the bits nor the size, whatever the filter.\<close>

lemma ComputeMurmurHash_keeps:
  "ComputeMurmurHash H bf key i = Inr (v, bf') \<Longrightarrow>
     Store bf' = Store bf \<and> Size bf' = Size bf \<and> length (mHashers bf') = length (mHashers bf)"
  by (auto simp: ComputeMurmurHash_def Let_def split: if_splits prod.splits)

section \<open>The conversion of the size\<close>

lemma scast_pos_unat:
  fixes sz :: int32
  assumes "0 \<le> sint sz"
  shows "unat (scast sz :: uint64) = nat (sint sz)"
proof -
  have "sint sz < 2 ^ (LENGTH(32) - 1)" by (rule sint_lt)
  then have lt: "sint sz < 2 ^ LENGTH(64)" by simp
  have "uint (word_of_int (sint sz) :: uint64) = sint sz mod 2 ^ LENGTH(64)"
    by (rule uint_word_of_int)
  also have "\<dots> = sint sz" using assms lt by (simp only: mod_pos_pos_trivial)
  finally have "uint (scast sz :: uint64) = sint sz" by (simp only: scast_eq)
  then show ?thesis by (simp only: unat_eq_nat_uint)
qed

lemma scast_pos_nonzero:
  fixes sz :: int32
  assumes "1 \<le> sint sz"
  shows "(scast sz :: uint64) \<noteq> 0"
proof
  assume "(scast sz :: uint64) = 0"
  then have "unat (scast sz :: uint64) = 0" by simp
  then show False using scast_pos_unat [of sz] assms by simp
qed

lemma bit_index_bound:
  fixes sz :: int32
  assumes "1 \<le> sint sz"
  shows "unat (bit_index H sz key i) < nat (sint sz)"
proof -
  have "unat (bit_index H sz key i) =
          unat (fst (H (seeds ! i) key)) mod unat (scast sz :: uint64)"
    by (simp add: bit_index_def unat_mod)
  also have "\<dots> = unat (fst (H (seeds ! i) key)) mod nat (sint sz)"
    using assms by (simp add: scast_pos_unat)
  also have "\<dots> < nat (sint sz)" using assms by simp
  finally show ?thesis .
qed

section \<open>The two loops\<close>

lemma Add_loop_step:
  assumes "usable bf" "0 \<le> i" "i < 8"
  shows "Add_loop H bf key i =
           Add_loop H (bf\<lparr>Store := (Store bf)[unat (bit_index H (Size bf) key (nat i)) := True]\<rparr>)
             key (i + 1)"
proof -
  have fresh: "bank_fresh bf" and pos: "1 \<le> sint (Size bf)"
    and len: "length (Store bf) = nat (sint (Size bf))"
    using assms(1) by (simp_all add: usable_def)
  have lt: "i < int (length (mHashers bf))"
    using fresh assms(3) by (simp add: bank_fresh_length)
  show ?thesis
    using lt scast_pos_nonzero [OF pos] bit_index_bound [OF pos, of H key "nat i"] len
    by (subst Add_loop.simps)
       (simp add: ComputeMurmurHash_fresh [OF fresh assms(2,3)] bit_index_def Let_def)
qed

lemma Add_loop_done:
  assumes "bank_fresh bf" "8 \<le> i"
  shows "Add_loop H bf key i = Inr bf"
  using assms by (subst Add_loop.simps) (simp add: bank_fresh_length)

lemma usable_set_bit: "usable bf \<Longrightarrow> usable (bf\<lparr>Store := (Store bf)[j := True]\<rparr>)"
  by (simp add: usable_def bank_fresh_def)

lemma Exists_loop_step:
  assumes "usable bf" "0 \<le> i" "i < 8"
  shows "Exists_loop H bf key i =
           (if \<not> Store bf ! unat (bit_index H (Size bf) key (nat i))
            then Inr ((bit_index H (Size bf) key (nat i), False), bf)
            else Exists_loop H bf key (i + 1))"
proof -
  have fresh: "bank_fresh bf" and pos: "1 \<le> sint (Size bf)"
    and len: "length (Store bf) = nat (sint (Size bf))"
    using assms(1) by (simp_all add: usable_def)
  have lt: "i < int (length (mHashers bf))"
    using fresh assms(3) by (simp add: bank_fresh_length)
  show ?thesis
    using lt scast_pos_nonzero [OF pos] bit_index_bound [OF pos, of H key "nat i"] len
    by (subst Exists_loop.simps)
       (simp add: ComputeMurmurHash_fresh [OF fresh assms(2,3)] bit_index_def Let_def)
qed

lemma Exists_loop_done:
  assumes "bank_fresh bf" "8 \<le> i"
  shows "Exists_loop H bf key i = Inr ((0, True), bf)"
  using assms by (subst Exists_loop.simps) (simp add: bank_fresh_length)


lemma Add_loop_mono:
  "Add_loop H bf key i = Inr bf' \<Longrightarrow>
     Size bf' = Size bf \<and> length (Store bf') = length (Store bf) \<and>
     (\<forall>j. j < length (Store bf) \<longrightarrow> Store bf ! j \<longrightarrow> Store bf' ! j)"
proof (induction H bf key i rule: Add_loop.induct)
  case (1 H bf key i)
  show ?case
  proof (cases "i < int (length (mHashers bf))")
    case False
    then show ?thesis using "1.prems" by (subst (asm) Add_loop.simps) simp
  next
    case True
    from "1.prems" True obtain h bf1 where
      c: "ComputeMurmurHash H bf key i = Inr (h, bf1)" and
      nz: "(scast (Size bf1) :: uint64) \<noteq> 0" and
      inb: "unat (h mod scast (Size bf1)) < length (Store bf1)" and
      rec: "Add_loop H (bf1\<lparr>Store := (Store bf1)[unat (h mod scast (Size bf1)) := True]\<rparr>) key (i + 1) = Inr bf'"
      by (subst (asm) Add_loop.simps) (auto simp: Let_def split: sum.splits if_splits)
    have keep: "Store bf1 = Store bf" "Size bf1 = Size bf"
      using ComputeMurmurHash_keeps [OF c] by simp_all
    have ih: "Size bf' = Size bf1 \<and> length (Store bf') = length (Store bf1) \<and>
       (\<forall>j. j < length (Store bf1) \<longrightarrow>
         ((Store bf1)[unat (h mod scast (Size bf1)) := True]) ! j \<longrightarrow> Store bf' ! j)"
      using "1.IH" [OF True c refl nz refl inb rec] by simp
    show ?thesis
    proof (intro conjI allI impI)
      show "Size bf' = Size bf" using ih keep by simp
      show "length (Store bf') = length (Store bf)" using ih keep by simp
      fix j assume j: "j < length (Store bf)" "Store bf ! j"
      then have "((Store bf1)[unat (h mod scast (Size bf1)) := True]) ! j"
        using keep inb by (simp add: nth_list_update)
      then show "Store bf' ! j" using ih j keep by simp
    qed
  qed
qed


lemma Add_loop_usable:
  assumes "usable bf" "0 \<le> i"
  shows "\<exists>bf'. Add_loop H bf key i = Inr bf' \<and> usable bf' \<and>
           (\<forall>k. nat i \<le> k \<and> k < 8 \<longrightarrow> Store bf' ! unat (bit_index H (Size bf) key k))"
  using assms
proof (induction "nat (8 - i)" arbitrary: bf i)
  case 0
  then have "Add_loop H bf key i = Inr bf"
    by (intro Add_loop_done) (simp_all add: usable_def)
  moreover have "\<not> (nat i \<le> k \<and> k < 8)" for k using 0 by linarith
  ultimately show ?case using 0(2) by blast
next
  case (Suc n)
  then have i: "0 \<le> i" "i < 8" by simp_all
  let ?x = "unat (bit_index H (Size bf) key (nat i))"
  let ?bf1 = "bf\<lparr>Store := (Store bf)[?x := True]\<rparr>"
  have pos: "1 \<le> sint (Size bf)" and len: "length (Store bf) = nat (sint (Size bf))"
    using Suc.prems(1) by (simp_all add: usable_def)
  have x: "?x < length (Store bf)" using bit_index_bound [OF pos] len by simp
  have u1: "usable ?bf1" using Suc.prems(1) by (rule usable_set_bit)
  have n: "n = nat (8 - (i + 1))" using Suc.hyps(2) by simp
  from Suc.hyps(1) [OF n u1] i obtain bf' where
    r: "Add_loop H ?bf1 key (i + 1) = Inr bf'" and u: "usable bf'" and
    bits: "\<forall>k. nat (i + 1) \<le> k \<and> k < 8 \<longrightarrow> Store bf' ! unat (bit_index H (Size bf) key k)"
    by auto
  have here: "Store bf' ! ?x"
    using Add_loop_mono [OF r] x by simp
  have "\<forall>k. nat i \<le> k \<and> k < 8 \<longrightarrow> Store bf' ! unat (bit_index H (Size bf) key k)"
  proof (intro allI impI)
    fix k assume k: "nat i \<le> k \<and> k < 8"
    show "Store bf' ! unat (bit_index H (Size bf) key k)"
    proof (cases "k = nat i")
      case True then show ?thesis using here by simp
    next
      case False
      then have "nat (i + 1) \<le> k" using k i by linarith
      then show ?thesis using bits k by simp
    qed
  qed
  moreover have "Add_loop H bf key i = Inr bf'"
    using Add_loop_step [OF Suc.prems(1) i] r by simp
  ultimately show ?case using u by blast
qed

lemma Exists_loop_usable:
  assumes "usable bf" "0 \<le> i"
  shows "\<exists>x b. Exists_loop H bf key i = Inr ((x, b), bf) \<and>
           (b \<longleftrightarrow> (\<forall>k. nat i \<le> k \<and> k < 8 \<longrightarrow> Store bf ! unat (bit_index H (Size bf) key k))) \<and>
           (b \<longrightarrow> x = 0) \<and>
           (\<not> b \<longrightarrow> (\<exists>k. nat i \<le> k \<and> k < 8 \<and> x = bit_index H (Size bf) key k \<and>
                     \<not> Store bf ! unat x \<and>
                     (\<forall>j. nat i \<le> j \<and> j < k \<longrightarrow> Store bf ! unat (bit_index H (Size bf) key j))))"
  using assms
proof (induction "nat (8 - i)" arbitrary: i)
  case 0
  then have "Exists_loop H bf key i = Inr ((0, True), bf)"
    by (intro Exists_loop_done) (simp_all add: usable_def)
  moreover have "\<not> (nat i \<le> k \<and> k < 8)" for k using 0 by linarith
  ultimately show ?case by blast
next
  case (Suc n)
  then have i: "0 \<le> i" "i < 8" by simp_all
  let ?x = "bit_index H (Size bf) key (nat i)"
  have n: "n = nat (8 - (i + 1))" using Suc.hyps(2) by simp
  show ?case
  proof (cases "Store bf ! unat ?x")
    case False
    then have "Exists_loop H bf key i = Inr ((?x, False), bf)"
      using Exists_loop_step [OF Suc.prems(1) i] by simp
    moreover have "nat i \<le> nat i \<and> nat i < 8" using i by simp
    ultimately show ?thesis using False by fastforce
  next
    case True
    from Suc.hyps(1) [OF n Suc.prems(1)] i obtain x b where
      r: "Exists_loop H bf key (i + 1) = Inr ((x, b), bf)" and
      all: "b \<longleftrightarrow> (\<forall>k. nat (i + 1) \<le> k \<and> k < 8 \<longrightarrow> Store bf ! unat (bit_index H (Size bf) key k))" and
      t: "b \<longrightarrow> x = 0" and
      f: "\<not> b \<longrightarrow> (\<exists>k. nat (i + 1) \<le> k \<and> k < 8 \<and> x = bit_index H (Size bf) key k \<and>
                     \<not> Store bf ! unat x \<and>
                     (\<forall>j. nat (i + 1) \<le> j \<and> j < k \<longrightarrow> Store bf ! unat (bit_index H (Size bf) key j)))"
      by auto
    have e: "Exists_loop H bf key i = Inr ((x, b), bf)"
      using Exists_loop_step [OF Suc.prems(1) i] True r by simp
    have split: "\<And>k. nat i \<le> k \<longleftrightarrow> k = nat i \<or> nat (i + 1) \<le> k" using i by linarith
    have all': "b \<longleftrightarrow> (\<forall>k. nat i \<le> k \<and> k < 8 \<longrightarrow> Store bf ! unat (bit_index H (Size bf) key k))"
      using all True by (auto simp: split)
    have f': "\<not> b \<longrightarrow> (\<exists>k. nat i \<le> k \<and> k < 8 \<and> x = bit_index H (Size bf) key k \<and>
                     \<not> Store bf ! unat x \<and>
                     (\<forall>j. nat i \<le> j \<and> j < k \<longrightarrow> Store bf ! unat (bit_index H (Size bf) key j)))"
    proof
      assume "\<not> b"
      with f obtain k where k: "nat (i + 1) \<le> k" "k < 8" "x = bit_index H (Size bf) key k"
        "\<not> Store bf ! unat x"
        "\<forall>j. nat (i + 1) \<le> j \<and> j < k \<longrightarrow> Store bf ! unat (bit_index H (Size bf) key j)"
        by blast
      have "\<forall>j. nat i \<le> j \<and> j < k \<longrightarrow> Store bf ! unat (bit_index H (Size bf) key j)"
        using k(5) True by (auto simp: split)
      moreover have "nat i \<le> k" using k(1) by (simp add: split)
      ultimately show "\<exists>k. nat i \<le> k \<and> k < 8 \<and> x = bit_index H (Size bf) key k \<and>
                     \<not> Store bf ! unat x \<and>
                     (\<forall>j. nat i \<le> j \<and> j < k \<longrightarrow> Store bf ! unat (bit_index H (Size bf) key j))"
        using k(2,3,4) by blast
    qed
    show ?thesis using e all' t f' by blast
  qed
qed

section \<open>Sequences of calls keep the filter well formed\<close>

lemma Exists_loop_keeps:
  "Exists_loop H bf key i = Inr (r, bf') \<Longrightarrow> Store bf' = Store bf \<and> Size bf' = Size bf"
proof (induction H bf key i rule: Exists_loop.induct)
  case (1 H bf key i)
  show ?case
  proof (cases "i < int (length (mHashers bf))")
    case False
    then show ?thesis using "1.prems" by (subst (asm) Exists_loop.simps) simp
  next
    case True
    from "1.prems" True obtain h bf1 where
      c: "ComputeMurmurHash H bf key i = Inr (h, bf1)" and
      nz: "(scast (Size bf1) :: uint64) \<noteq> 0" and
      inb: "unat (h mod scast (Size bf1)) < length (Store bf1)" and
      rec: "(\<not> Store bf1 ! unat (h mod scast (Size bf1)) \<and> bf' = bf1) \<or>
            (Store bf1 ! unat (h mod scast (Size bf1)) \<and> Exists_loop H bf1 key (i + 1) = Inr (r, bf'))"
      by (subst (asm) Exists_loop.simps) (auto simp: Let_def split: sum.splits if_splits)
    have keep: "Store bf1 = Store bf" "Size bf1 = Size bf"
      using ComputeMurmurHash_keeps [OF c] by simp_all
    from rec show ?thesis
    proof
      assume "\<not> Store bf1 ! unat (h mod scast (Size bf1)) \<and> bf' = bf1"
      then show ?thesis using keep by simp
    next
      assume a: "Store bf1 ! unat (h mod scast (Size bf1)) \<and> Exists_loop H bf1 key (i + 1) = Inr (r, bf')"
      then have "\<not> \<not> Store bf1 ! unat (h mod scast (Size bf1))" by simp
      from "1.IH" [OF True c refl nz refl inb this] a keep show ?thesis by simp
    qed
  qed
qed

lemma step_keeps:
  assumes "step H bf c = Inr bf'"
  shows "Size bf' = Size bf \<and> length (Store bf') = length (Store bf) \<and>
         (\<forall>j. j < length (Store bf) \<longrightarrow> Store bf ! j \<longrightarrow> Store bf' ! j) \<and>
         (\<not> is_Add c \<longrightarrow> Store bf' = Store bf)"
proof (cases c)
  case (CallAdd key)
  then show ?thesis using assms Add_loop_mono [of H bf key 0 bf'] by (simp add: Add_def)
next
  case (CallExists key)
  then obtain r where "Exists_loop H bf key 0 = Inr (r, bf')"
    using assms by (auto simp: Exists_def split: sum.splits)
  then show ?thesis using CallExists Exists_loop_keeps by fastforce
next
  case CallInfo
  then show ?thesis using assms by simp
next
  case (CallComputeMurmurHash key i)
  then obtain v where "ComputeMurmurHash H bf key i = Inr (v, bf')"
    using assms by (auto split: sum.splits)
  then show ?thesis using CallComputeMurmurHash ComputeMurmurHash_keeps by fastforce
qed

lemma run_keeps:
  "run H bf cs = Inr bf' \<Longrightarrow>
     Size bf' = Size bf \<and> length (Store bf') = length (Store bf) \<and>
     (\<forall>j. j < length (Store bf) \<longrightarrow> Store bf ! j \<longrightarrow> Store bf' ! j) \<and>
     ((\<forall>c \<in> set cs. \<not> is_Add c) \<longrightarrow> Store bf' = Store bf)"
proof (induction cs arbitrary: bf)
  case Nil
  then show ?case by simp
next
  case (Cons c cs)
  then obtain bf1 where s: "step H bf c = Inr bf1" and r: "run H bf1 cs = Inr bf'"
    by (auto split: sum.splits)
  show ?case using step_keeps [OF s] Cons.IH [OF r] by auto
qed

lemma step_usable:
  assumes "usable bf" "step H bf c = Inr bf'"
  shows "usable bf'"
proof (cases c)
  case (CallAdd key)
  then show ?thesis
    using assms Add_loop_usable [of bf 0 H key] by (auto simp: Add_def)
next
  case (CallExists key)
  then show ?thesis
    using assms Exists_loop_usable [of bf 0 H key] by (auto simp: Exists_def)
next
  case CallInfo
  then show ?thesis using assms by simp
next
  case (CallComputeMurmurHash key i)
  have fresh: "bank_fresh bf" using assms(1) by (simp add: usable_def)
  show ?thesis
  proof (cases "0 \<le> i \<and> i < 8")
    case True
    then show ?thesis
      using assms CallComputeMurmurHash ComputeMurmurHash_fresh [OF fresh, of i H key] by simp
  next
    case False
    then have "i < 0 \<or> 8 \<le> i" by linarith
    then show ?thesis
      using assms CallComputeMurmurHash ComputeMurmurHash_out_of_range [OF fresh, of i H key]
      by simp
  qed
qed

lemma run_usable:
  "usable bf \<Longrightarrow> run H bf cs = Inr bf' \<Longrightarrow> usable bf'"
proof (induction cs arbitrary: bf)
  case Nil
  then show ?case by simp
next
  case (Cons c cs)
  then obtain bf1 where s: "step H bf c = Inr bf1" and r: "run H bf1 cs = Inr bf'"
    by (auto split: sum.splits)
  show ?case using Cons.IH [OF step_usable [OF Cons.prems(1) s] r] .
qed

lemma step_total:
  assumes "usable bf" "in_range c"
  shows "\<exists>bf'. step H bf c = Inr bf'"
proof (cases c)
  case (CallAdd key)
  then show ?thesis using Add_loop_usable [OF assms(1), of 0 H key] by (auto simp: Add_def)
next
  case (CallExists key)
  then show ?thesis using Exists_loop_usable [OF assms(1), of 0 H key] by (auto simp: Exists_def)
next
  case CallInfo
  then show ?thesis by simp
next
  case (CallComputeMurmurHash key i)
  have fresh: "bank_fresh bf" using assms(1) by (simp add: usable_def)
  show ?thesis
    using assms(2) CallComputeMurmurHash ComputeMurmurHash_fresh [OF fresh, of i H key] by simp
qed

lemma run_total:
  "usable bf \<Longrightarrow> list_all in_range cs \<Longrightarrow> \<exists>bf'. run H bf cs = Inr bf'"
proof (induction cs arbitrary: bf)
  case Nil
  then show ?case by simp
next
  case (Cons c cs)
  then obtain bf1 where s: "step H bf c = Inr bf1"
    using step_total [of bf c H] by auto
  have "usable bf1" using step_usable [OF Cons.prems(1) s] .
  then obtain bf' where "run H bf1 cs = Inr bf'" using Cons.IH Cons.prems(2) by auto
  then show ?case using s by simp
qed

lemma NewBloomFilter_usable:
  assumes "1 \<le> sint sz"
  shows "\<exists>bf. NewBloomFilter sz = Inr bf \<and> usable bf \<and> Size bf = sz"
  using assms by (simp add: NewBloomFilter_def usable_def bank_fresh_def seeds_def)

section \<open>Evaluation at concrete filters\<close>

lemma demo_new: "NewBloomFilter 16 = Inr demo_filter"
  by (simp add: NewBloomFilter_def demo_filter_def seeds_def)

lemma demo_run: "run demo_hash demo_filter demo_calls = Inr demo_filter_ab"
  by code_simp

lemma demo_new1: "NewBloomFilter 1 = Inr \<lparr>Store = [False], Size = 1, mHashers = map New128WithSeed seeds\<rparr>"
  by (simp add: NewBloomFilter_def seeds_def)

lemma demo_new0:
  "NewBloomFilter 0 = Inr \<lparr>Store = [], Size = 0, mHashers = map New128WithSeed seeds\<rparr>"
  by (simp add: NewBloomFilter_def seeds_def)

lemma demo_in_range: "list_all in_range demo_calls"
  by (simp add: demo_calls_def)

section \<open>The properties of the program\<close>

subsection \<open>No false negatives\<close>

lemma run_added:
  assumes "usable bf" "run H bf cs = Inr bf'" "CallAdd key \<in> set cs"
  shows "\<forall>k. k < 8 \<longrightarrow> Store bf' ! unat (bit_index H (Size bf) key k)"
  using assms
proof (induction cs arbitrary: bf)
  case Nil
  then show ?case by simp
next
  case (Cons c cs)
  then obtain bf1 where s: "step H bf c = Inr bf1" and r: "run H bf1 cs = Inr bf'"
    by (auto split: sum.splits)
  have u1: "usable bf1" using step_usable [OF Cons.prems(1) s] .
  have sz: "Size bf1 = Size bf" using step_keeps [OF s] by simp
  show ?case
  proof (cases "CallAdd key \<in> set cs")
    case True
    then show ?thesis using Cons.IH [OF u1 r] sz by simp
  next
    case False
    then have c: "c = CallAdd key" using Cons.prems(3) by simp
    obtain bf2 where a: "Add_loop H bf key 0 = Inr bf2" and
      bits: "\<forall>k. nat 0 \<le> k \<and> k < 8 \<longrightarrow> Store bf2 ! unat (bit_index H (Size bf) key k)"
      using Add_loop_usable [OF Cons.prems(1), of 0 H key] by auto
    have eq: "bf2 = bf1" using a s c by (simp add: Add_def)
    have pos: "1 \<le> sint (Size bf1)" and len: "length (Store bf1) = nat (sint (Size bf1))"
      using u1 by (simp_all add: usable_def)
    show ?thesis
    proof (intro allI impI)
      fix k :: nat assume k: "k < 8"
      have "unat (bit_index H (Size bf) key k) < length (Store bf1)"
        using bit_index_bound [OF pos, of H key k] len sz by simp
      moreover have "Store bf1 ! unat (bit_index H (Size bf) key k)"
        using bits k eq by simp
      ultimately show "Store bf' ! unat (bit_index H (Size bf) key k)"
        using run_keeps [OF r] by simp
    qed
  qed
qed

text \<open>
  C1. No false negatives: in a filter built with a size of at least 1, after any
  sequence of calls, a key that some earlier \<^verbatim>\<open>Add\<close> of the sequence was given makes
  \<^verbatim>\<open>Exists\<close> return true, whatever else was added before or after it and whatever
  other calls were interleaved; none of the calls panics.
\<close>

theorem no_false_negatives:
  assumes "1 \<le> sint sz" "list_all in_range cs" "CallAdd key \<in> set cs"
  shows "\<exists>bf0 bf. NewBloomFilter sz = Inr bf0 \<and> run H bf0 cs = Inr bf \<and>
           Exists H bf key = Inr ((0, True), bf)"
proof -
  obtain bf0 where n: "NewBloomFilter sz = Inr bf0" and u0: "usable bf0"
    using NewBloomFilter_usable [OF assms(1)] by auto
  obtain bf where r: "run H bf0 cs = Inr bf"
    using run_total [OF u0 assms(2)] by auto
  have u: "usable bf" using run_usable [OF u0 r] .
  have sz: "Size bf = Size bf0" using run_keeps [OF r] by simp
  have bits: "\<forall>k. k < 8 \<longrightarrow> Store bf ! unat (bit_index H (Size bf) key k)"
    using run_added [OF u0 r assms(3)] sz by simp
  obtain x b where e: "Exists_loop H bf key 0 = Inr ((x, b), bf)" and
    b: "b \<longleftrightarrow> (\<forall>k. nat 0 \<le> k \<and> k < 8 \<longrightarrow> Store bf ! unat (bit_index H (Size bf) key k))" and
    z: "b \<longrightarrow> x = 0"
    using Exists_loop_usable [OF u, of 0 H key] by auto
  have "b" using b bits by simp
  then have "Exists H bf key = Inr ((0, True), bf)" using e z by (simp add: Exists_def)
  then show ?thesis using n r by blast
qed

theorem no_false_negatives_witness:
  "1 \<le> sint (16 :: int32) \<and>
   list_all in_range [CallAdd ''ab'', CallExists ''c'', CallAdd ''c'', CallInfo] \<and>
   CallAdd ''ab'' \<in> set [CallAdd ''ab'', CallExists ''c'', CallAdd ''c'', CallInfo] \<and>
   (\<exists>bf0 bf. NewBloomFilter 16 = Inr bf0 \<and>
      run demo_hash bf0 [CallAdd ''ab'', CallExists ''c'', CallAdd ''c'', CallInfo] = Inr bf \<and>
      Exists demo_hash bf ''ab'' = Inr ((0, True), bf))"
  using no_false_negatives
    [of 16 "[CallAdd ''ab'', CallExists ''c'', CallAdd ''c'', CallInfo]" "''ab''" demo_hash]
  by simp

subsection \<open>A filter of size 1\<close>

lemma bit_index_size_one: "bit_index H 1 key k = 0"
  by (simp add: bit_index_def)

text \<open>
  C2. Size-1 degeneracy: in a filter built with size 1, after a single \<^verbatim>\<open>Add\<close> of
  any key, \<^verbatim>\<open>Exists\<close> returns true for every key whatsoever, added or not, and for
  every digest function.
\<close>

theorem size_one_degenerate:
  "\<exists>bf0 bf1. NewBloomFilter 1 = Inr bf0 \<and> Add H bf0 k = Inr bf1 \<and>
     Store bf1 = [True] \<and> Exists H bf1 key = Inr ((0, True), bf1)"
proof -
  obtain bf0 where n: "NewBloomFilter 1 = Inr bf0" and u0: "usable bf0" and s0: "Size bf0 = 1"
    using NewBloomFilter_usable [of 1] by auto
  obtain bf1 where a: "Add_loop H bf0 k 0 = Inr bf1" and u1: "usable bf1" and
    bits: "\<forall>j. nat 0 \<le> j \<and> j < 8 \<longrightarrow> Store bf1 ! unat (bit_index H (Size bf0) k j)"
    using Add_loop_usable [OF u0, of 0 H k] by auto
  have s1: "Size bf1 = 1" using Add_loop_mono [OF a] s0 by simp
  have l1: "length (Store bf1) = 1" using u1 s1 by (simp add: usable_def)
  have b0: "Store bf1 ! 0" using bits [rule_format, of 0] s0 by (simp add: bit_index_size_one)
  have st: "Store bf1 = [True]"
    using l1 b0 by (cases "Store bf1") simp_all
  obtain x b where e: "Exists_loop H bf1 key 0 = Inr ((x, b), bf1)" and
    b: "b \<longleftrightarrow> (\<forall>j. nat 0 \<le> j \<and> j < 8 \<longrightarrow> Store bf1 ! unat (bit_index H (Size bf1) key j))" and
    z: "b \<longrightarrow> x = 0"
    using Exists_loop_usable [OF u1, of 0 H key] by auto
  have "b" using b b0 s1 by (simp add: bit_index_size_one)
  then have "Exists H bf1 key = Inr ((0, True), bf1)" using e z by (simp add: Exists_def)
  then show ?thesis using n a st by (auto simp: Add_def)
qed

theorem size_one_degenerate_witness:
  "\<exists>bf0 bf1. NewBloomFilter 1 = Inr bf0 \<and> Add demo_hash bf0 ''ab'' = Inr bf1 \<and>
     Store bf1 = [True] \<and> Exists demo_hash bf1 ''never added'' = Inr ((0, True), bf1)"
  using size_one_degenerate [of demo_hash "''ab''" "''never added''"] by simp

subsection \<open>Short-circuit against full evaluation\<close>

lemma all_indices_usable:
  assumes "usable bf" "\<forall>k \<in> set ks. k < 8"
  shows "all_indices H bf key (map int ks) = Inr (map (bit_index H (Size bf) key) ks, bf)"
  using assms(2)
proof (induction ks)
  case Nil
  then show ?case by simp
next
  case (Cons k ks)
  have fresh: "bank_fresh bf" and pos: "1 \<le> sint (Size bf)"
    using assms(1) by (simp_all add: usable_def)
  have k: "0 \<le> int k" "int k < 8" using Cons.prems by simp_all
  show ?case
    using Cons scast_pos_nonzero [OF pos]
    by (simp add: ComputeMurmurHash_fresh [OF fresh k] bit_index_def)
qed

lemma Exists_full_spec_usable:
  assumes "usable bf"
  shows "Exists_full_spec H bf key =
           Inr (\<forall>k. k < 8 \<longrightarrow> Store bf ! unat (bit_index H (Size bf) key k), bf)"
proof -
  have pos: "1 \<le> sint (Size bf)" and len: "length (Store bf) = nat (sint (Size bf))"
    using assms by (simp_all add: usable_def)
  have a: "all_indices H bf key (map int [0..<K]) =
             Inr (map (bit_index H (Size bf) key) [0..<K], bf)"
    by (rule all_indices_usable [OF assms]) (simp add: K_def)
  have inb: "list_all (\<lambda>x. unat x < length (Store bf)) (map (bit_index H (Size bf) key) [0..<K])"
    using bit_index_bound [OF pos] len by (simp add: list_all_iff)
  have "list_all (\<lambda>x. Store bf ! unat x) (map (bit_index H (Size bf) key) [0..<K]) \<longleftrightarrow>
          (\<forall>k. k < 8 \<longrightarrow> Store bf ! unat (bit_index H (Size bf) key k))"
    by (auto simp: list_all_iff K_def)
  then show ?thesis using a inb by (simp add: Exists_full_spec_def)
qed

text \<open>
  C3. Short-circuit equivalence: in every state that a filter of size at least 1
  reaches through a sequence of calls, and for every key, the short-circuiting
  \<^verbatim>\<open>Exists\<close> returns the same boolean as the full evaluation that computes all eight
  indices and takes the conjunction of their bits; neither panics, and both leave the
  filter as it was.
\<close>

theorem short_circuit_equivalence:
  assumes "1 \<le> sint sz" "NewBloomFilter sz = Inr bf0" "run H bf0 cs = Inr bf"
  shows "\<exists>x b. Exists H bf key = Inr ((x, b), bf) \<and> Exists_full_spec H bf key = Inr (b, bf)"
proof -
  have u0: "usable bf0" using NewBloomFilter_usable [OF assms(1)] assms(2) by auto
  have u: "usable bf" using run_usable [OF u0 assms(3)] .
  obtain x b where e: "Exists_loop H bf key 0 = Inr ((x, b), bf)" and
    b: "b \<longleftrightarrow> (\<forall>k. nat 0 \<le> k \<and> k < 8 \<longrightarrow> Store bf ! unat (bit_index H (Size bf) key k))"
    using Exists_loop_usable [OF u, of 0 H key] by auto
  have "Exists_full_spec H bf key = Inr (b, bf)"
    using Exists_full_spec_usable [OF u, of H key] b by simp
  then show ?thesis using e by (simp add: Exists_def)
qed

theorem short_circuit_equivalence_witness:
  "1 \<le> sint (16 :: int32) \<and> NewBloomFilter 16 = Inr demo_filter \<and>
   run demo_hash demo_filter demo_calls = Inr demo_filter_ab \<and>
   (\<exists>x b. Exists demo_hash demo_filter_ab ''c'' = Inr ((x, b), demo_filter_ab) \<and>
          Exists_full_spec demo_hash demo_filter_ab ''c'' = Inr (b, demo_filter_ab))"
  using short_circuit_equivalence [of 16 demo_filter demo_hash demo_calls demo_filter_ab "''c''"]
    demo_new demo_run
  by simp

subsection \<open>Monotone bits\<close>

text \<open>
  C4. Bit monotonicity: for every filter whatsoever and every sequence of calls that
  runs to its end, the bit array keeps its length and the set of indices whose bit is
  true never shrinks; a sequence without an \<^verbatim>\<open>Add\<close> (only \<^verbatim>\<open>Exists\<close>, \<^verbatim>\<open>Info\<close> and
  digest calls) leaves the bit array exactly as it was.
\<close>

theorem bits_monotone:
  assumes "run H bf cs = Inr bf'"
  shows "length (Store bf') = length (Store bf) \<and>
         {j. j < length (Store bf) \<and> Store bf ! j} \<subseteq> {j. j < length (Store bf') \<and> Store bf' ! j} \<and>
         ((\<forall>c \<in> set cs. \<not> is_Add c) \<longrightarrow> Store bf' = Store bf)"
  using run_keeps [OF assms] by auto

theorem bits_monotone_witness:
  "run demo_hash demo_filter demo_calls = Inr demo_filter_ab \<and>
   length (Store demo_filter_ab) = length (Store demo_filter) \<and>
   {j. j < length (Store demo_filter) \<and> Store demo_filter ! j}
     \<subseteq> {j. j < length (Store demo_filter_ab) \<and> Store demo_filter_ab ! j} \<and>
   run demo_hash demo_filter_ab [CallExists ''c'', CallInfo] = Inr demo_filter_ab \<and>
   \<not> is_Add (CallExists ''c'') \<and> \<not> is_Add CallInfo"
proof -
  have r: "run demo_hash demo_filter_ab [CallExists ''c'', CallInfo] = Inr demo_filter_ab"
    by code_simp
  have "length (Store demo_filter_ab) = length (Store demo_filter) \<and>
   {j. j < length (Store demo_filter) \<and> Store demo_filter ! j}
     \<subseteq> {j. j < length (Store demo_filter_ab) \<and> Store demo_filter_ab ! j}"
    using bits_monotone [OF demo_run] by blast
  moreover have "\<not> is_Add (CallExists ''c'')" "\<not> is_Add CallInfo" by simp_all
  ultimately show ?thesis using demo_run r by blast
qed

subsection \<open>The pair that \<^verbatim>\<open>Exists\<close> returns\<close>

lemma Exists_loop_true_zero:
  "Exists_loop H bf key i = Inr ((x, True), bf') \<Longrightarrow> x = 0"
proof (induction H bf key i rule: Exists_loop.induct)
  case (1 H bf key i)
  show ?case
  proof (cases "i < int (length (mHashers bf))")
    case False
    then show ?thesis using "1.prems" by (subst (asm) Exists_loop.simps) simp
  next
    case True
    from "1.prems" True obtain h bf1 where
      c: "ComputeMurmurHash H bf key i = Inr (h, bf1)" and
      nz: "(scast (Size bf1) :: uint64) \<noteq> 0" and
      inb: "unat (h mod scast (Size bf1)) < length (Store bf1)" and
      set: "\<not> \<not> Store bf1 ! unat (h mod scast (Size bf1))" and
      rec: "Exists_loop H bf1 key (i + 1) = Inr ((x, True), bf')"
      by (subst (asm) Exists_loop.simps) (auto simp: Let_def split: sum.splits if_splits)
    show ?thesis using "1.IH" [OF True c refl nz refl inb set rec] .
  qed
qed

text \<open>
  C10. The shape of the membership result: \<^verbatim>\<open>Exists\<close> returns a pair. Whatever the
  filter, a true result comes with the number 0. In every state that a filter of size
  at least 1 reaches, the call returns, and a false result comes with the index
  (digest modulo size) of the first hasher, in bank order, whose bit is unset: that
  bit is false and the bits of all earlier hashers are true.
\<close>

theorem exists_result_shape:
  "(\<forall>g x g'. Exists H g key = Inr ((x, True), g') \<longrightarrow> x = 0) \<and>
   (1 \<le> sint sz \<and> NewBloomFilter sz = Inr bf0 \<and> run H bf0 cs = Inr bf \<longrightarrow>
     (\<exists>x b. Exists H bf key = Inr ((x, b), bf) \<and>
        (\<not> b \<longrightarrow>
          (\<exists>k h. k < 8 \<and> ComputeMurmurHash H bf key (int k) = Inr (h, bf) \<and>
             x = h mod scast (Size bf) \<and> \<not> Store bf ! unat x \<and>
             (\<forall>j. j < k \<longrightarrow>
                (\<exists>h'. ComputeMurmurHash H bf key (int j) = Inr (h', bf) \<and>
                      Store bf ! unat (h' mod scast (Size bf))))))))"
proof (intro conjI allI impI)
  fix g x g'
  assume "Exists H g key = Inr ((x, True), g')"
  then show "x = 0" using Exists_loop_true_zero [of H g key 0 x g'] by (simp add: Exists_def)
next
  assume a: "1 \<le> sint sz \<and> NewBloomFilter sz = Inr bf0 \<and> run H bf0 cs = Inr bf"
  have u0: "usable bf0" using NewBloomFilter_usable [of sz] a by auto
  have u: "usable bf" using run_usable [OF u0] a by blast
  have fresh: "bank_fresh bf" using u by (simp add: usable_def)
  have digest: "ComputeMurmurHash H bf key (int k) = Inr (fst (H (seeds ! k) key), bf)"
    if "k < 8" for k
    using ComputeMurmurHash_fresh [OF fresh, of "int k" H key] that by simp
  obtain x b where e: "Exists_loop H bf key 0 = Inr ((x, b), bf)" and
    f: "\<not> b \<longrightarrow> (\<exists>k. nat 0 \<le> k \<and> k < 8 \<and> x = bit_index H (Size bf) key k \<and>
                     \<not> Store bf ! unat x \<and>
                     (\<forall>j. nat 0 \<le> j \<and> j < k \<longrightarrow> Store bf ! unat (bit_index H (Size bf) key j)))"
    using Exists_loop_usable [OF u, of 0 H key] by auto
  have "\<exists>k h. k < 8 \<and> ComputeMurmurHash H bf key (int k) = Inr (h, bf) \<and>
             x = h mod scast (Size bf) \<and> \<not> Store bf ! unat x \<and>
             (\<forall>j. j < k \<longrightarrow>
                (\<exists>h'. ComputeMurmurHash H bf key (int j) = Inr (h', bf) \<and>
                      Store bf ! unat (h' mod scast (Size bf))))" if nb: "\<not> b"
  proof -
    from f nb obtain k where k: "k < 8" "x = bit_index H (Size bf) key k" "\<not> Store bf ! unat x"
      "\<forall>j. j < k \<longrightarrow> Store bf ! unat (bit_index H (Size bf) key j)"
      by auto
    have "\<forall>j. j < k \<longrightarrow>
                (\<exists>h'. ComputeMurmurHash H bf key (int j) = Inr (h', bf) \<and>
                      Store bf ! unat (h' mod scast (Size bf)))"
    proof (intro allI impI)
      fix j assume j: "j < k"
      then have "j < 8" using k(1) by simp
      then show "\<exists>h'. ComputeMurmurHash H bf key (int j) = Inr (h', bf) \<and>
                      Store bf ! unat (h' mod scast (Size bf))"
        using digest [of j] k(4) j by (simp add: bit_index_def)
    qed
    then show ?thesis using k(1,2,3) digest [OF k(1)] by (auto simp: bit_index_def)
  qed
  then show "\<exists>x b. Exists H bf key = Inr ((x, b), bf) \<and>
        (\<not> b \<longrightarrow>
          (\<exists>k h. k < 8 \<and> ComputeMurmurHash H bf key (int k) = Inr (h, bf) \<and>
             x = h mod scast (Size bf) \<and> \<not> Store bf ! unat x \<and>
             (\<forall>j. j < k \<longrightarrow>
                (\<exists>h'. ComputeMurmurHash H bf key (int j) = Inr (h', bf) \<and>
                      Store bf ! unat (h' mod scast (Size bf))))))"
    using e by (auto simp: Exists_def)
qed


theorem exists_result_shape_witness:
  "1 \<le> sint (16 :: int32) \<and> NewBloomFilter 16 = Inr demo_filter \<and>
   run demo_hash demo_filter demo_calls = Inr demo_filter_ab \<and>
   Exists demo_hash demo_filter_ab ''c'' = Inr ((12, False), demo_filter_ab) \<and>
   Exists demo_hash demo_filter_ab ''ab'' = Inr ((0, True), demo_filter_ab) \<and>
   (\<exists>x b. Exists demo_hash demo_filter_ab ''c'' = Inr ((x, b), demo_filter_ab) \<and>
        (\<not> b \<longrightarrow>
          (\<exists>k h. k < 8 \<and> ComputeMurmurHash demo_hash demo_filter_ab ''c'' (int k) = Inr (h, demo_filter_ab) \<and>
             x = h mod scast (Size demo_filter_ab) \<and> \<not> Store demo_filter_ab ! unat x \<and>
             (\<forall>j. j < k \<longrightarrow>
                (\<exists>h'. ComputeMurmurHash demo_hash demo_filter_ab ''c'' (int j) = Inr (h', demo_filter_ab) \<and>
                      Store demo_filter_ab ! unat (h' mod scast (Size demo_filter_ab)))))))"
proof -
  have pos: "1 \<le> sint (16 :: int32)" by simp
  have c: "Exists demo_hash demo_filter_ab ''c'' = Inr ((12, False), demo_filter_ab)"
    by code_simp
  have ab: "Exists demo_hash demo_filter_ab ''ab'' = Inr ((0, True), demo_filter_ab)"
    by code_simp
  show ?thesis
    using exists_result_shape [of demo_hash "''c''" 16 demo_filter demo_calls demo_filter_ab]
      pos demo_new demo_run c ab
    by blast
qed

subsection \<open>The hashers stay in their initial state\<close>

lemma ComputeMurmurHash_fresh_Inr:
  assumes "bank_fresh bf" "ComputeMurmurHash H bf key i = Inr (v, bf')"
  shows "bf' = bf \<and> 0 \<le> i \<and> i < 8 \<and> v = fst (H (seeds ! nat i) key)"
proof (cases "0 \<le> i \<and> i < 8")
  case True
  then show ?thesis using assms ComputeMurmurHash_fresh [OF assms(1), of i H key] by simp
next
  case False
  then have "i < 0 \<or> 8 \<le> i" by linarith
  then show ?thesis
    using assms ComputeMurmurHash_out_of_range [OF assms(1), of i H key] by simp
qed

lemma bank_fresh_Store [simp]: "bank_fresh (bf\<lparr>Store := s\<rparr>) = bank_fresh bf"
  by (simp add: bank_fresh_def)

lemma Add_loop_fresh:
  "Add_loop H bf key i = Inr bf' \<Longrightarrow> bank_fresh bf \<Longrightarrow> bank_fresh bf'"
proof (induction H bf key i rule: Add_loop.induct)
  case (1 H bf key i)
  show ?case
  proof (cases "i < int (length (mHashers bf))")
    case False
    then show ?thesis using "1.prems" by (subst (asm) Add_loop.simps) simp
  next
    case True
    from "1.prems"(1) True obtain h bf1 where
      c: "ComputeMurmurHash H bf key i = Inr (h, bf1)" and
      nz: "(scast (Size bf1) :: uint64) \<noteq> 0" and
      inb: "unat (h mod scast (Size bf1)) < length (Store bf1)" and
      rec: "Add_loop H (bf1\<lparr>Store := (Store bf1)[unat (h mod scast (Size bf1)) := True]\<rparr>) key (i + 1) = Inr bf'"
      by (subst (asm) Add_loop.simps) (auto simp: Let_def split: sum.splits if_splits)
    have "bf1 = bf" using ComputeMurmurHash_fresh_Inr [OF "1.prems"(2) c] by simp
    then have "bank_fresh (bf1\<lparr>Store := (Store bf1)[unat (h mod scast (Size bf1)) := True]\<rparr>)"
      using "1.prems"(2) by simp
    then show ?thesis using "1.IH" [OF True c refl nz refl inb rec] by simp
  qed
qed

lemma Exists_loop_fresh:
  "Exists_loop H bf key i = Inr (r, bf') \<Longrightarrow> bank_fresh bf \<Longrightarrow> bf' = bf"
proof (induction H bf key i rule: Exists_loop.induct)
  case (1 H bf key i)
  show ?case
  proof (cases "i < int (length (mHashers bf))")
    case False
    then show ?thesis using "1.prems" by (subst (asm) Exists_loop.simps) simp
  next
    case True
    from "1.prems"(1) True obtain h bf1 where
      c: "ComputeMurmurHash H bf key i = Inr (h, bf1)" and
      nz: "(scast (Size bf1) :: uint64) \<noteq> 0" and
      inb: "unat (h mod scast (Size bf1)) < length (Store bf1)" and
      rec: "(\<not> Store bf1 ! unat (h mod scast (Size bf1)) \<and> bf' = bf1) \<or>
            (Store bf1 ! unat (h mod scast (Size bf1)) \<and> Exists_loop H bf1 key (i + 1) = Inr (r, bf'))"
      by (subst (asm) Exists_loop.simps) (auto simp: Let_def split: sum.splits if_splits)
    have eq: "bf1 = bf" using ComputeMurmurHash_fresh_Inr [OF "1.prems"(2) c] by simp
    from rec show ?thesis
    proof
      assume "\<not> Store bf1 ! unat (h mod scast (Size bf1)) \<and> bf' = bf1"
      then show ?thesis using eq by simp
    next
      assume a: "Store bf1 ! unat (h mod scast (Size bf1)) \<and> Exists_loop H bf1 key (i + 1) = Inr (r, bf')"
      then have "\<not> \<not> Store bf1 ! unat (h mod scast (Size bf1))" by simp
      from "1.IH" [OF True c refl nz refl inb this] a eq "1.prems"(2) show ?thesis by simp
    qed
  qed
qed

lemma step_fresh:
  assumes "bank_fresh bf" "step H bf c = Inr bf'"
  shows "bank_fresh bf'"
proof (cases c)
  case (CallAdd key)
  then show ?thesis using assms Add_loop_fresh [of H bf key 0 bf'] by (simp add: Add_def)
next
  case (CallExists key)
  then obtain r where "Exists_loop H bf key 0 = Inr (r, bf')"
    using assms by (auto simp: Exists_def split: sum.splits)
  then show ?thesis using assms(1) Exists_loop_fresh by fastforce
next
  case CallInfo
  then show ?thesis using assms by simp
next
  case (CallComputeMurmurHash key i)
  then obtain v where "ComputeMurmurHash H bf key i = Inr (v, bf')"
    using assms by (auto split: sum.splits)
  then show ?thesis using assms(1) ComputeMurmurHash_fresh_Inr by fastforce
qed

lemma run_fresh:
  "bank_fresh bf \<Longrightarrow> run H bf cs = Inr bf' \<Longrightarrow> bank_fresh bf'"
proof (induction cs arbitrary: bf)
  case Nil
  then show ?case by simp
next
  case (Cons c cs)
  then obtain bf1 where s: "step H bf c = Inr bf1" and r: "run H bf1 cs = Inr bf'"
    by (auto split: sum.splits)
  show ?case using Cons.IH [OF step_fresh [OF Cons.prems(1) s] r] .
qed

lemma NewBloomFilter_fresh:
  "NewBloomFilter sz = Inr bf \<Longrightarrow> bank_fresh bf \<and> Size bf = sz"
  by (auto simp: NewBloomFilter_def bank_fresh_def seeds_def split: if_splits)

text \<open>
  C5. Digest determinism: for every key and every hash index from 0 to 7, a call of
  \<^verbatim>\<open>ComputeMurmurHash\<close> returns one and the same value at any two moments in the life
  of a filter (whatever calls were made before or in between: the hasher is reset, so
  nothing written earlier leaks into a later digest), and in any other filter that
  \<^verbatim>\<open>NewBloomFilter\<close> built, of whatever size; the call leaves the filter as it was.
\<close>

theorem digest_deterministic:
  assumes "NewBloomFilter sz1 = Inr a0" "run H a0 cs1 = Inr a" "run H a cs1' = Inr a'"
    and "NewBloomFilter sz2 = Inr b0" "run H b0 cs2 = Inr b"
    and "0 \<le> i" "i < 8"
  shows "\<exists>v. ComputeMurmurHash H a key i = Inr (v, a) \<and>
             ComputeMurmurHash H a' key i = Inr (v, a') \<and>
             ComputeMurmurHash H b key i = Inr (v, b)"
proof -
  have fa: "bank_fresh a"
    using run_fresh [OF _ assms(2)] NewBloomFilter_fresh [OF assms(1)] by simp
  have fa': "bank_fresh a'" using run_fresh [OF fa assms(3)] .
  have fb: "bank_fresh b"
    using run_fresh [OF _ assms(5)] NewBloomFilter_fresh [OF assms(4)] by simp
  show ?thesis
    using ComputeMurmurHash_fresh [OF fa assms(6,7)] ComputeMurmurHash_fresh [OF fa' assms(6,7)]
      ComputeMurmurHash_fresh [OF fb assms(6,7)]
    by simp
qed

theorem digest_deterministic_witness:
  "NewBloomFilter 16 = Inr demo_filter \<and>
   run demo_hash demo_filter [] = Inr demo_filter \<and>
   run demo_hash demo_filter demo_calls = Inr demo_filter_ab \<and>
   NewBloomFilter 1 = Inr \<lparr>Store = [False], Size = 1, mHashers = map New128WithSeed seeds\<rparr> \<and>
   run demo_hash \<lparr>Store = [False], Size = 1, mHashers = map New128WithSeed seeds\<rparr> [CallInfo]
     = Inr \<lparr>Store = [False], Size = 1, mHashers = map New128WithSeed seeds\<rparr> \<and>
   (0 :: int) \<le> 3 \<and> (3 :: int) < 8 \<and>
   (\<exists>v. ComputeMurmurHash demo_hash demo_filter ''key'' 3 = Inr (v, demo_filter) \<and>
        ComputeMurmurHash demo_hash demo_filter_ab ''key'' 3 = Inr (v, demo_filter_ab) \<and>
        ComputeMurmurHash demo_hash
          \<lparr>Store = [False], Size = 1, mHashers = map New128WithSeed seeds\<rparr> ''key'' 3
          = Inr (v, \<lparr>Store = [False], Size = 1, mHashers = map New128WithSeed seeds\<rparr>))"
proof -
  have r0: "run demo_hash demo_filter [] = Inr demo_filter" by simp
  have r1: "run demo_hash \<lparr>Store = [False], Size = 1, mHashers = map New128WithSeed seeds\<rparr> [CallInfo]
     = Inr \<lparr>Store = [False], Size = 1, mHashers = map New128WithSeed seeds\<rparr>" by simp
  have i: "(0 :: int) \<le> 3" "(3 :: int) < 8" by simp_all
  show ?thesis
    using digest_deterministic [OF demo_new r0 demo_run demo_new1 r1 i, of "''key''"]
      demo_new r0 demo_run demo_new1 r1
    by simp
qed

subsection \<open>A filter of size 0, and a negative size\<close>

lemma Add_loop_size_zero:
  assumes "bank_fresh bf" "Size bf = 0"
  shows "Add_loop H bf key 0 = Inl IntegerDivideByZero"
  using assms
  by (subst Add_loop.simps)
     (simp add: bank_fresh_length ComputeMurmurHash_fresh [of bf 0 H key])

lemma Exists_loop_size_zero:
  assumes "bank_fresh bf" "Size bf = 0"
  shows "Exists_loop H bf key 0 = Inl IntegerDivideByZero"
  using assms
  by (subst Exists_loop.simps)
     (simp add: bank_fresh_length ComputeMurmurHash_fresh [of bf 0 H key])

text \<open>
  C9. \<^verbatim>\<open>NewBloomFilter(0)\<close> returns a filter, with no error; in every state that this
  filter reaches, each \<^verbatim>\<open>Add\<close> and each \<^verbatim>\<open>Exists\<close> panics with a division by zero. A
  negative size panics in \<^verbatim>\<open>NewBloomFilter\<close> itself. With a size of at least 1, no
  sequence of \<^verbatim>\<open>Add\<close>, \<^verbatim>\<open>Exists\<close>, \<^verbatim>\<open>Info\<close> (and in-range digest) calls panics, and in
  every state reached each index, digest modulo size, lies below the size, which is the
  length of the bit array.
\<close>

theorem panics_and_safety:
  "(\<exists>bf0. NewBloomFilter 0 = Inr bf0 \<and>
      (\<forall>cs bf key. run H bf0 cs = Inr bf \<longrightarrow>
         Add H bf key = Inl IntegerDivideByZero \<and> Exists H bf key = Inl IntegerDivideByZero)) \<and>
   (sint sz < 0 \<longrightarrow> NewBloomFilter sz = Inl MakesliceLenOutOfRange) \<and>
   (1 \<le> sint sz \<longrightarrow>
      (\<exists>bf0. NewBloomFilter sz = Inr bf0 \<and>
         (\<forall>cs. list_all in_range cs \<longrightarrow>
            (\<exists>bf. run H bf0 cs = Inr bf \<and> length (Store bf) = nat (sint sz) \<and>
               (\<forall>key i. 0 \<le> i \<and> i < 8 \<longrightarrow>
                  (\<exists>h. ComputeMurmurHash H bf key i = Inr (h, bf) \<and>
                       unat (h mod scast (Size bf)) < nat (sint sz)))))))"
proof (intro conjI impI)
  obtain bf0 where n: "NewBloomFilter 0 = Inr bf0"
    by (simp add: NewBloomFilter_def)
  have f0: "bank_fresh bf0" and s0: "Size bf0 = 0"
    using NewBloomFilter_fresh [OF n] by simp_all
  have "Add H bf key = Inl IntegerDivideByZero \<and> Exists H bf key = Inl IntegerDivideByZero"
    if r: "run H bf0 cs = Inr bf" for cs bf key
  proof -
    have "bank_fresh bf" using run_fresh [OF f0 r] .
    moreover have "Size bf = 0" using run_keeps [OF r] s0 by simp
    ultimately show ?thesis
      by (simp add: Add_def Exists_def Add_loop_size_zero Exists_loop_size_zero)
  qed
  then show "\<exists>bf0. NewBloomFilter 0 = Inr bf0 \<and>
      (\<forall>cs bf key. run H bf0 cs = Inr bf \<longrightarrow>
         Add H bf key = Inl IntegerDivideByZero \<and> Exists H bf key = Inl IntegerDivideByZero)"
    using n by blast
next
  assume "sint sz < 0"
  then show "NewBloomFilter sz = Inl MakesliceLenOutOfRange"
    by (simp add: NewBloomFilter_def)
next
  assume pos: "1 \<le> sint sz"
  obtain bf0 where n: "NewBloomFilter sz = Inr bf0" and u0: "usable bf0" and s0: "Size bf0 = sz"
    using NewBloomFilter_usable [OF pos] by auto
  have "\<exists>bf. run H bf0 cs = Inr bf \<and> length (Store bf) = nat (sint sz) \<and>
               (\<forall>key i. 0 \<le> i \<and> i < 8 \<longrightarrow>
                  (\<exists>h. ComputeMurmurHash H bf key i = Inr (h, bf) \<and>
                       unat (h mod scast (Size bf)) < nat (sint sz)))"
    if ok: "list_all in_range cs" for cs
  proof -
    obtain bf where r: "run H bf0 cs = Inr bf" using run_total [OF u0 ok] by auto
    have u: "usable bf" using run_usable [OF u0 r] .
    have s: "Size bf = sz" using run_keeps [OF r] s0 by simp
    have fresh: "bank_fresh bf" and len: "length (Store bf) = nat (sint sz)"
      using u s by (simp_all add: usable_def)
    have "\<exists>h. ComputeMurmurHash H bf key i = Inr (h, bf) \<and>
               unat (h mod scast (Size bf)) < nat (sint sz)"
      if i: "0 \<le> i \<and> i < 8" for key i
      using ComputeMurmurHash_fresh [OF fresh, of i H key] i
        bit_index_bound [OF pos, of H key "nat i"] s
      by (simp add: bit_index_def)
    then show ?thesis using r len by blast
  qed
  then show "\<exists>bf0. NewBloomFilter sz = Inr bf0 \<and>
         (\<forall>cs. list_all in_range cs \<longrightarrow>
            (\<exists>bf. run H bf0 cs = Inr bf \<and> length (Store bf) = nat (sint sz) \<and>
               (\<forall>key i. 0 \<le> i \<and> i < 8 \<longrightarrow>
                  (\<exists>h. ComputeMurmurHash H bf key i = Inr (h, bf) \<and>
                       unat (h mod scast (Size bf)) < nat (sint sz)))))"
    using n by blast
qed


theorem panics_and_safety_witness:
  "NewBloomFilter 0 = Inr \<lparr>Store = [], Size = 0, mHashers = map New128WithSeed seeds\<rparr> \<and>
   run demo_hash \<lparr>Store = [], Size = 0, mHashers = map New128WithSeed seeds\<rparr> [CallInfo]
     = Inr \<lparr>Store = [], Size = 0, mHashers = map New128WithSeed seeds\<rparr> \<and>
   Add demo_hash \<lparr>Store = [], Size = 0, mHashers = map New128WithSeed seeds\<rparr> ''ab''
     = Inl IntegerDivideByZero \<and>
   Exists demo_hash \<lparr>Store = [], Size = 0, mHashers = map New128WithSeed seeds\<rparr> ''ab''
     = Inl IntegerDivideByZero \<and>
   sint (- 1 :: int32) < 0 \<and> NewBloomFilter (- 1) = Inl MakesliceLenOutOfRange \<and>
   1 \<le> sint (16 :: int32) \<and> NewBloomFilter 16 = Inr demo_filter \<and>
   list_all in_range demo_calls \<and>
   run demo_hash demo_filter demo_calls = Inr demo_filter_ab \<and>
   length (Store demo_filter_ab) = nat (sint (16 :: int32)) \<and>
   (0 :: int) \<le> 3 \<and> (3 :: int) < 8 \<and>
   (\<exists>h. ComputeMurmurHash demo_hash demo_filter_ab ''c'' 3 = Inr (h, demo_filter_ab) \<and>
        unat (h mod scast (Size demo_filter_ab)) < nat (sint (16 :: int32)))"
proof -
  let ?z = "\<lparr>Store = [], Size = 0, mHashers = map New128WithSeed seeds\<rparr>"
  have rz: "run demo_hash ?z [CallInfo] = Inr ?z" by simp
  have neg: "sint (- 1 :: int32) < 0" by simp
  have pos: "1 \<le> sint (16 :: int32)" by simp
  from panics_and_safety [of demo_hash 16] obtain z0 where
    nz: "NewBloomFilter 0 = Inr z0" and
    pz: "\<forall>cs bf key. run demo_hash z0 cs = Inr bf \<longrightarrow>
           Add demo_hash bf key = Inl IntegerDivideByZero \<and>
           Exists demo_hash bf key = Inl IntegerDivideByZero"
    by blast
  have "z0 = ?z" using nz demo_new0 by simp
  then have zero: "Add demo_hash ?z ''ab'' = Inl IntegerDivideByZero \<and>
              Exists demo_hash ?z ''ab'' = Inl IntegerDivideByZero"
    using pz [rule_format, of "[CallInfo]" ?z "''ab''"] rz by simp
  have neg': "NewBloomFilter (- 1) = Inl MakesliceLenOutOfRange"
    using panics_and_safety [of demo_hash "- 1"] neg by blast
  from panics_and_safety [of demo_hash 16] pos obtain bf0 where
    n: "NewBloomFilter 16 = Inr bf0" and
    all: "\<forall>cs. list_all in_range cs \<longrightarrow>
            (\<exists>bf. run demo_hash bf0 cs = Inr bf \<and> length (Store bf) = nat (sint (16 :: int32)) \<and>
               (\<forall>key i. 0 \<le> i \<and> i < 8 \<longrightarrow>
                  (\<exists>h. ComputeMurmurHash demo_hash bf key i = Inr (h, bf) \<and>
                       unat (h mod scast (Size bf)) < nat (sint (16 :: int32)))))"
    by blast
  have eq: "bf0 = demo_filter" using n demo_new by simp
  from all [rule_format, OF demo_in_range] eq demo_run have
    len: "length (Store demo_filter_ab) = nat (sint (16 :: int32))" and
    idx: "\<forall>key i. 0 \<le> i \<and> i < 8 \<longrightarrow>
            (\<exists>h. ComputeMurmurHash demo_hash demo_filter_ab key i = Inr (h, demo_filter_ab) \<and>
                 unat (h mod scast (Size demo_filter_ab)) < nat (sint (16 :: int32)))"
    by auto
  have "\<exists>h. ComputeMurmurHash demo_hash demo_filter_ab ''c'' 3 = Inr (h, demo_filter_ab) \<and>
        unat (h mod scast (Size demo_filter_ab)) < nat (sint (16 :: int32))"
    using idx [rule_format, of 3 "''c''"] by simp
  then show ?thesis
    using demo_new0 rz zero neg neg' pos demo_new demo_in_range demo_run len by simp
qed

subsection \<open>Construction\<close>

text \<open>
  C6. Construction: for every size of at least 1, \<^verbatim>\<open>NewBloomFilter\<close> returns a filter of
  that size whose bit array has exactly that many entries, all false, with the bank of
  eight hashers, freshly seeded with eight distinct seeds. A size of 0 or less is
  outside the contract: a negative size fails in the constructor, and for size 0 the
  constructor returns a filter with an empty bit array on which every \<^verbatim>\<open>Add\<close> and
  \<^verbatim>\<open>Exists\<close> fails.
\<close>

theorem construction_validation:
  "(1 \<le> sint sz \<longrightarrow>
      (\<exists>bf. NewBloomFilter sz = Inr bf \<and> Size bf = sz \<and>
         length (Store bf) = nat (sint sz) \<and> (\<forall>j < length (Store bf). \<not> Store bf ! j) \<and>
         length (mHashers bf) = 8 \<and> map seed (mHashers bf) = seeds \<and>
         distinct (map seed (mHashers bf)) \<and> (\<forall>h \<in> set (mHashers bf). written h = []))) \<and>
   (sint sz < 0 \<longrightarrow> NewBloomFilter sz = Inl MakesliceLenOutOfRange) \<and>
   (sint sz = 0 \<longrightarrow>
      (\<exists>bf. NewBloomFilter sz = Inr bf \<and> Store bf = [] \<and>
         (\<forall>key. Add H bf key = Inl IntegerDivideByZero \<and>
                Exists H bf key = Inl IntegerDivideByZero)))"
proof (intro conjI impI)
  assume "1 \<le> sint sz"
  then show "\<exists>bf. NewBloomFilter sz = Inr bf \<and> Size bf = sz \<and>
         length (Store bf) = nat (sint sz) \<and> (\<forall>j < length (Store bf). \<not> Store bf ! j) \<and>
         length (mHashers bf) = 8 \<and> map seed (mHashers bf) = seeds \<and>
         distinct (map seed (mHashers bf)) \<and> (\<forall>h \<in> set (mHashers bf). written h = [])"
    by (simp add: NewBloomFilter_def New128WithSeed_def seeds_def)
next
  assume "sint sz < 0"
  then show "NewBloomFilter sz = Inl MakesliceLenOutOfRange"
    by (simp add: NewBloomFilter_def)
next
  assume z: "sint sz = 0"
  then have sz: "sz = 0" by (simp add: signed_eq_0_iff)
  obtain bf where n: "NewBloomFilter sz = Inr bf" and st: "Store bf = []"
    using z by (simp add: NewBloomFilter_def)
  have "bank_fresh bf" "Size bf = 0" using NewBloomFilter_fresh [OF n] sz by simp_all
  then have "\<forall>key. Add H bf key = Inl IntegerDivideByZero \<and>
                Exists H bf key = Inl IntegerDivideByZero"
    by (simp add: Add_def Exists_def Add_loop_size_zero Exists_loop_size_zero)
  then show "\<exists>bf. NewBloomFilter sz = Inr bf \<and> Store bf = [] \<and>
         (\<forall>key. Add H bf key = Inl IntegerDivideByZero \<and>
                Exists H bf key = Inl IntegerDivideByZero)"
    using n st by blast
qed

theorem construction_validation_witness:
  "1 \<le> sint (16 :: int32) \<and> NewBloomFilter 16 = Inr demo_filter \<and>
   length (Store demo_filter) = 16 \<and> Store demo_filter = replicate 16 False \<and>
   \<not> Store demo_filter ! 5 \<and>
   length (mHashers demo_filter) = 8 \<and> distinct (map seed (mHashers demo_filter)) \<and>
   sint (- 1 :: int32) < 0 \<and> NewBloomFilter (- 1) = Inl MakesliceLenOutOfRange \<and>
   sint (0 :: int32) = 0 \<and>
   NewBloomFilter 0 = Inr \<lparr>Store = [], Size = 0, mHashers = map New128WithSeed seeds\<rparr> \<and>
   Add demo_hash \<lparr>Store = [], Size = 0, mHashers = map New128WithSeed seeds\<rparr> ''ab''
     = Inl IntegerDivideByZero"
proof -
  have pos: "1 \<le> sint (16 :: int32)" and neg: "sint (- 1 :: int32) < 0"
    and z: "sint (0 :: int32) = 0"
    by simp_all
  have a: "length (Store demo_filter) = 16 \<and>
      (\<forall>j < length (Store demo_filter). \<not> Store demo_filter ! j) \<and>
      length (mHashers demo_filter) = 8 \<and> distinct (map seed (mHashers demo_filter))"
    using construction_validation [of 16 demo_hash] pos demo_new by auto
  then have a5: "\<not> Store demo_filter ! 5" by simp
  have rep: "Store demo_filter = replicate 16 False" by (simp add: demo_filter_def)
  have b: "NewBloomFilter (- 1) = Inl MakesliceLenOutOfRange"
    using construction_validation [of "- 1" demo_hash] neg by blast
  have c: "Add demo_hash \<lparr>Store = [], Size = 0, mHashers = map New128WithSeed seeds\<rparr> ''ab''
     = Inl IntegerDivideByZero"
    using construction_validation [of 0 demo_hash] z demo_new0 by auto
  show ?thesis using pos neg z a a5 rep b c demo_new demo_new0 by simp
qed

subsection \<open>The sweep of \<^verbatim>\<open>main\<close>\<close>

lemma main_sweep_eq:
  "main_sweep = [1000, 11000, 21000, 31000, 41000, 51000, 61000, 71000, 81000, 91000]"
  by (simp add: main_sweep_def sweep_loop.simps)

text \<open>
  C7, as stated, fails: the loop tests \<open>bfsize \<le> 100000\<close>, but from 1000 in steps of
  10000 the last size it reaches is 91000, and 100000 is never swept.
\<close>

theorem sweep_misses_upper_bound: "100000 \<notin> set main_sweep"
  by (simp add: main_sweep_eq)

lemma sweep_set:
  "{s. \<exists>j :: nat. s = 1000 + 10000 * int j \<and> s \<le> 100000} =
     {1000, 11000, 21000, 31000, 41000, 51000, 61000, 71000, 81000, 91000 :: int}"
proof (intro set_eqI iffI)
  fix s :: int
  assume "s \<in> {s. \<exists>j :: nat. s = 1000 + 10000 * int j \<and> s \<le> 100000}"
  then obtain j :: nat where j: "s = 1000 + 10000 * int j" "s \<le> 100000" by blast
  then have "j < 10" by simp
  then have "j \<in> {0, 1, 2, 3, 4, 5, 6, 7, 8, 9}" by auto
  then show "s \<in> {1000, 11000, 21000, 31000, 41000, 51000, 61000, 71000, 81000, 91000}"
    using j(1) by auto
next
  fix s :: int
  assume "s \<in> {1000, 11000, 21000, 31000, 41000, 51000, 61000, 71000, 81000, 91000}"
  then consider "s = 1000 + 10000 * int 0" | "s = 1000 + 10000 * int 1"
    | "s = 1000 + 10000 * int 2" | "s = 1000 + 10000 * int 3" | "s = 1000 + 10000 * int 4"
    | "s = 1000 + 10000 * int 5" | "s = 1000 + 10000 * int 6" | "s = 1000 + 10000 * int 7"
    | "s = 1000 + 10000 * int 8" | "s = 1000 + 10000 * int 9"
    by auto
  then show "s \<in> {s. \<exists>j :: nat. s = 1000 + 10000 * int j \<and> s \<le> 100000}"
    by cases (simp; (rule exI, rule refl))+
qed


text \<open>
  C7, amended. \<^verbatim>\<open>main\<close> starts exactly one \<^verbatim>\<open>PerformTests\<close>, and so builds exactly one
  fresh filter, for each of the ten sizes 1000, 11000, ..., 91000: these are exactly
  the sizes reachable from 1000 in steps of 10000 that do not exceed 100000, the bound
  of the loop condition, which is not itself one of them.
\<close>

theorem sweep_sizes:
  "main_sweep = [1000, 11000, 21000, 31000, 41000, 51000, 61000, 71000, 81000, 91000] \<and>
   set main_sweep = {s. \<exists>j :: nat. s = 1000 + 10000 * int j \<and> s \<le> 100000} \<and>
   distinct main_sweep \<and>
   (\<forall>s \<in> set main_sweep.
      \<exists>bf. PerformTests_bloom s = Inr bf \<and> sint (Size bf) = s \<and>
           Store bf = replicate (nat s) False \<and> bank_fresh bf)"
proof (intro conjI)
  show "main_sweep = [1000, 11000, 21000, 31000, 41000, 51000, 61000, 71000, 81000, 91000]"
    by (rule main_sweep_eq)
  show "set main_sweep = {s. \<exists>j :: nat. s = 1000 + 10000 * int j \<and> s \<le> 100000}"
    by (simp only: sweep_set) (simp add: main_sweep_eq)
  show "distinct main_sweep" by (simp add: main_sweep_eq)
  show "\<forall>s \<in> set main_sweep.
      \<exists>bf. PerformTests_bloom s = Inr bf \<and> sint (Size bf) = s \<and>
           Store bf = replicate (nat s) False \<and> bank_fresh bf"
    by (simp add: main_sweep_eq PerformTests_bloom_def NewBloomFilter_def bank_fresh_def
        seeds_def)
qed

theorem sweep_sizes_witness:
  "91000 \<in> set main_sweep \<and>
   (\<exists>bf. PerformTests_bloom 91000 = Inr bf \<and> sint (Size bf) = 91000 \<and>
        Store bf = replicate (nat 91000) False \<and> bank_fresh bf)"
proof -
  have m: "91000 \<in> set main_sweep" using sweep_sizes by simp
  from sweep_sizes have "\<forall>s \<in> set main_sweep.
      \<exists>bf. PerformTests_bloom s = Inr bf \<and> sint (Size bf) = s \<and>
           Store bf = replicate (nat s) False \<and> bank_fresh bf"
    by blast
  from this [rule_format, OF m] m show ?thesis by blast
qed

subsection \<open>The dataset generator\<close>

lemma sdiv_two: "0 \<le> n \<Longrightarrow> n sdiv 2 = n div (2 :: int)"
  by (simp add: signed_divide_int_def sgn_if)

lemma train_loop_eq:
  "train_loop U n i (c, ds, m) =
     (c + nat (n sdiv 2 - i), ds @ map U [c ..< c + nat (n sdiv 2 - i)],
      (\<lambda>s. if s \<in> U ` {c ..< c + nat (n sdiv 2 - i)} then Some True else m s))"
proof (induction "nat (n sdiv 2 - i)" arbitrary: i c ds m)
  case 0
  then show ?case by (subst train_loop.simps) simp
next
  case (Suc k)
  then have lt: "i < n sdiv 2" and k: "k = nat (n sdiv 2 - (i + 1))"
    and k': "nat (n sdiv 2 - i) = Suc k" by simp_all
  have upt: "[c ..< c + Suc k] = c # [c + 1 ..< c + 1 + k]"
    by (simp add: upt_conv_Cons)
  have img: "{c ..< c + Suc k} = insert c {c + 1 ..< c + 1 + k}" by auto
  have "train_loop U n i (c, ds, m) =
          train_loop U n (i + 1) (c + 1, ds @ [U c], m(U c \<mapsto> True))"
    using lt by (subst train_loop.simps) (simp add: Let_def)
  also have "\<dots> = (c + 1 + k, (ds @ [U c]) @ map U [c + 1 ..< c + 1 + k],
      (\<lambda>s. if s \<in> U ` {c + 1 ..< c + 1 + k} then Some True else (m(U c \<mapsto> True)) s))"
    using Suc.hyps(1) [OF k] k by simp
  also have "\<dots> = (c + Suc k, ds @ map U [c ..< c + Suc k],
      (\<lambda>s. if s \<in> U ` {c ..< c + Suc k} then Some True else m s))"
    by (simp only: upt img) (auto simp: fun_eq_iff)
  finally show ?case by (simp only: k')
qed

lemma test_loop_eq:
  "test_loop U n i (c, ds, m) =
     (c + nat (n - i), ds @ map U [c ..< c + nat (n - i)],
      (\<lambda>s. if s \<in> U ` {c ..< c + nat (n - i)} then Some True else m s))"
proof (induction "nat (n - i)" arbitrary: i c ds m)
  case 0
  then show ?case by (subst test_loop.simps) simp
next
  case (Suc k)
  then have lt: "i < n" and k: "k = nat (n - (i + 1))"
    and k': "nat (n - i) = Suc k" by simp_all
  have upt: "[c ..< c + Suc k] = c # [c + 1 ..< c + 1 + k]"
    by (simp add: upt_conv_Cons)
  have img: "{c ..< c + Suc k} = insert c {c + 1 ..< c + 1 + k}" by auto
  have "test_loop U n i (c, ds, m) =
          test_loop U n (i + 1) (c + 1, ds @ [U c], m(U c \<mapsto> True))"
    using lt by (subst test_loop.simps) (simp add: Let_def)
  also have "\<dots> = (c + 1 + k, (ds @ [U c]) @ map U [c + 1 ..< c + 1 + k],
      (\<lambda>s. if s \<in> U ` {c + 1 ..< c + 1 + k} then Some True else (m(U c \<mapsto> True)) s))"
    using Suc.hyps(1) [OF k] k by simp
  also have "\<dots> = (c + Suc k, ds @ map U [c ..< c + Suc k],
      (\<lambda>s. if s \<in> U ` {c ..< c + Suc k} then Some True else m s))"
    by (simp only: upt img) (auto simp: fun_eq_iff)
  finally show ?case by (simp only: k')
qed

lemma generateDataset_eq:
  assumes "2 \<le> n"
  shows "generateDataset U n =
    ([] # map U [0 ..< nat (n div 2)] @ map U [nat (n div 2) ..< nat (n div 2) + nat (n - n div 2 - 1)],
     (\<lambda>s. if s \<in> U ` {0 ..< nat (n div 2)} then Some True else None),
     (\<lambda>s. if s \<in> U ` {nat (n div 2) ..< nat (n div 2) + nat (n - n div 2 - 1)}
           then Some True else None))"
proof -
  have d: "n sdiv 2 = n div 2" using assms by (simp add: sdiv_two)
  have e: "n - (n div 2 + 1) = n - n div 2 - 1" by simp
  show ?thesis
    by (simp add: generateDataset_def train_loop_eq test_loop_eq d e)
qed


lemma dom_image_map:
  "dom (\<lambda>s. if s \<in> A then Some True else None) = A"
  by (auto simp: dom_def)

text \<open>
  C8. The shape of the generated dataset: for every \<open>n\<close> of at least 2, with identifiers
  that are pairwise distinct (and, as every canonical UUID string, not empty),
  \<^verbatim>\<open>generateDataset(n)\<close> returns a slice of length exactly \<open>n\<close> whose first element is
  the empty string, which is a key of neither map; every other element is a key of one
  of the maps; the train map has \<open>n/2\<close> keys, the test map \<open>n - n/2 - 1\<close>, and no key is
  in both.
\<close>

theorem generateDataset_shape:
  assumes "2 \<le> n" "inj U" "\<forall>c. U c \<noteq> []"
  shows "case generateDataset U n of (dataset, trainDataset, testDataset) \<Rightarrow>
           int (length dataset) = n \<and> dataset ! 0 = [] \<and>
           [] \<notin> dom trainDataset \<and> [] \<notin> dom testDataset \<and>
           set (tl dataset) = dom trainDataset \<union> dom testDataset \<and>
           int (card (dom trainDataset)) = n div 2 \<and>
           int (card (dom testDataset)) = n - n div 2 - 1 \<and>
           dom trainDataset \<inter> dom testDataset = {}"
proof -
  let ?a = "nat (n div 2)" and ?b = "nat (n - n div 2 - 1)"
  have a: "int ?a = n div 2" using assms(1) by simp
  have b: "int ?b = n - n div 2 - 1" using assms(1) by simp
  have len: "int (Suc (?a + ?b)) = n" using a b by simp
  have inj_on: "inj_on U A" for A using assms(2) by (rule inj_on_subset) simp
  have ca: "card (U ` {0 ..< ?a}) = ?a" by (simp add: card_image [OF inj_on])
  have cb: "card (U ` {?a ..< ?a + ?b}) = ?b" by (simp add: card_image [OF inj_on])
  have disj: "U ` {0 ..< ?a} \<inter> U ` {?a ..< ?a + ?b} = {}"
  proof -
    have "{0 ..< ?a} \<inter> {?a ..< ?a + ?b} = {}" by auto
    then have "U ` ({0 ..< ?a} \<inter> {?a ..< ?a + ?b}) = {}" by simp
    then show ?thesis using image_Int [OF assms(2), of "{0 ..< ?a}" "{?a ..< ?a + ?b}"] by simp
  qed
  have ne: "[] \<notin> U ` A" for A
  proof
    assume "[] \<in> U ` A"
    then obtain x where "[] = U x" by (rule imageE)
    then show False using assms(3) by (metis (no_types))
  qed
  have tl: "set (map U [0 ..< ?a] @ map U [?a ..< ?a + ?b]) =
              U ` {0 ..< ?a} \<union> U ` {?a ..< ?a + ?b}"
    by simp
  show ?thesis
    unfolding generateDataset_eq [OF assms(1)] prod.case dom_image_map
    using len a b ca cb disj ne tl
    by (simp only: list.sel nth_Cons_0 length_Cons length_append length_map length_upt
        diff_zero add_diff_cancel_left' simp_thms)
qed

lemma demo_uuid_inj: "inj demo_uuid"
proof (rule injI)
  fix x y assume "demo_uuid x = demo_uuid y"
  then have "length (demo_uuid x) = length (demo_uuid y)" by simp
  then show "x = y" by (simp add: demo_uuid_def)
qed

lemma demo_uuid_nonempty: "\<forall>c. demo_uuid c \<noteq> []"
  by (simp add: demo_uuid_def)

theorem generateDataset_shape_witness:
  "(2 :: int) \<le> 20000 \<and> inj demo_uuid \<and> (\<forall>c. demo_uuid c \<noteq> []) \<and>
   (case generateDataset demo_uuid 20000 of (dataset, trainDataset, testDataset) \<Rightarrow>
      length dataset = 20000 \<and> dataset ! 0 = [] \<and>
      [] \<notin> dom trainDataset \<and> [] \<notin> dom testDataset \<and>
      card (dom trainDataset) = 10000 \<and> card (dom testDataset) = 9999 \<and>
      dom trainDataset \<inter> dom testDataset = {})"
proof -
  have n: "(2 :: int) \<le> 20000" by simp
  show ?thesis
    using generateDataset_shape [OF n demo_uuid_inj demo_uuid_nonempty] n demo_uuid_inj
      demo_uuid_nonempty
    by (auto split: prod.splits)
qed

lemma generateDataset_demo: "fst (generateDataset demo_uuid 4) = [[], ''u'', ''uu'', ''uuu'']"
  by code_simp

end
